theory Spec2Isabelle
  imports Main "HOL-Library.Multiset"
begin

section \<open>Python built-ins used by loci.py\<close>

text \<open>
  Text is modelled as \<^typ>\<open>string\<close>, one \<^typ>\<open>char\<close> per code point below 256.
  Python integers are unbounded, hence \<^typ>\<open>int\<close>. Exceptions are values of
  \<open>error\<close>; a function that may raise returns \<open>error + 'a\<close> with \<open>Inl\<close> the exception.
\<close>

datatype error = ValueError | IndexError | KeyError

definition LF :: char where
  "LF = CHR 0x0A"

definition CR :: char where
  "CR = CHR 0x0D"

text \<open>\<open>xs[i]\<close> for a non-negative index: IndexError when out of range.\<close>

definition py_getitem :: "'a list \<Rightarrow> nat \<Rightarrow> error + 'a" where
  "py_getitem xs i = (if i < length xs then Inr (xs ! i) else Inl IndexError)"

text \<open>\<open>s.split(',')\<close>: every comma separates; the result has at least one field.\<close>

fun split_comma :: "string \<Rightarrow> string list" where
  "split_comma [] = [[]]"
| "split_comma (c # cs) =
     (if c = CHR '','' then [] # split_comma cs
      else (case split_comma cs of
              [] \<Rightarrow> [[c]]
            | f # fs \<Rightarrow> (c # f) # fs))"

text \<open>\<open>s.rstrip("\n")\<close>: removes every trailing line feed and nothing else.\<close>

definition rstrip_nl :: "string \<Rightarrow> string" where
  "rstrip_nl s = rev (dropWhile (\<lambda>c. c = LF) (rev s))"

text \<open>
  \<open>int(s)\<close> on a string, base ten: surrounding white space is dropped, then an optional
  sign, then decimal digits in which single underscores may separate two digits.
  Anything else raises ValueError. The white space of \<open>int\<close> is tab, line feed,
  vertical tab, form feed, carriage return and space, and of the characters from 128
  on, which it first turns into spaces, next line (0x85) and no-break space (0xA0).
  The separators 0x1C to 0x1F, which \<open>str.isspace\<close> accepts, are not among them:
  a field that holds one raises ValueError.
\<close>

definition py_isspace :: "char \<Rightarrow> bool" where
  "py_isspace c = (c \<in> set [CHR 0x09, CHR 0x0A, CHR 0x0B, CHR 0x0C, CHR 0x0D, CHR 0x20,
                            CHR 0x85, CHR 0xA0])"

definition py_strip :: "string \<Rightarrow> string" where
  "py_strip s = rev (dropWhile py_isspace (rev (dropWhile py_isspace s)))"

definition py_isdigit :: "char \<Rightarrow> bool" where
  "py_isdigit c = (48 \<le> (of_char c :: nat) \<and> (of_char c :: nat) \<le> 57)"

definition digit_val :: "char \<Rightarrow> nat" where
  "digit_val c = of_char c - 48"

fun py_digits :: "bool \<Rightarrow> string \<Rightarrow> nat \<Rightarrow> nat option" where
  "py_digits prev [] acc = (if prev then Some acc else None)"
| "py_digits prev (c # cs) acc =
     (if py_isdigit c then py_digits True cs (10 * acc + digit_val c)
      else if c = CHR ''_'' \<and> prev then py_digits False cs acc
      else None)"

definition py_int :: "string \<Rightarrow> error + int" where
  "py_int s =
     (case py_strip s of
        [] \<Rightarrow> Inl ValueError
      | c # cs \<Rightarrow>
          if c = CHR ''-'' then
            (case py_digits False cs 0 of
               None \<Rightarrow> Inl ValueError
             | Some n \<Rightarrow> Inr (- int n))
          else if c = CHR ''+'' then
            (case py_digits False cs 0 of
               None \<Rightarrow> Inl ValueError
             | Some n \<Rightarrow> Inr (int n))
          else
            (case py_digits False (c # cs) 0 of
               None \<Rightarrow> Inl ValueError
             | Some n \<Rightarrow> Inr (int n)))"

text \<open>\<open>str(i)\<close> on an integer: a minus sign for a negative value, then the decimal digits.\<close>

definition digit_char :: "nat \<Rightarrow> char" where
  "digit_char d = char_of (48 + d)"

function nat_digits :: "nat \<Rightarrow> string" where
  "nat_digits n = (if n < 10 then [digit_char n] else nat_digits (n div 10) @ [digit_char (n mod 10)])"
  by pat_completeness auto
termination
  by (relation "measure (\<lambda>n. n)") auto

declare nat_digits.simps [simp del]

definition py_str :: "int \<Rightarrow> string" where
  "py_str i = (if i < 0 then CHR ''-'' # nat_digits (nat (- i)) else nat_digits (nat i))"

text \<open>
  A file opened in text mode: \<open>universal_newlines\<close> is the translation of \<open>\r\n\<close> and
  \<open>\r\<close> to \<open>\n\<close> done on reading, \<open>file_lines\<close> the iteration over the file object,
  each line keeping its line feed (the last line may have none).
\<close>

fun universal_newlines :: "string \<Rightarrow> string" where
  "universal_newlines [] = []"
| "universal_newlines [c] = (if c = CR then [LF] else [c])"
| "universal_newlines (c # d # cs) =
     (if c = CR \<and> d = LF then LF # universal_newlines cs
      else if c = CR then LF # universal_newlines (d # cs)
      else c # universal_newlines (d # cs))"

fun file_lines :: "string \<Rightarrow> string list" where
  "file_lines [] = []"
| "file_lines (c # cs) =
     (if c = LF then [c] # file_lines cs
      else (case file_lines cs of
              [] \<Rightarrow> [[c]]
            | l # ls \<Rightarrow> (c # l) # ls))"

definition open_rt :: "string \<Rightarrow> string list" where
  "open_rt content = file_lines (universal_newlines content)"

section \<open>The loci list and the reads dict\<close>

text \<open>
  \<open>loci\<close> is the flat list of loci.py: position, coverage, position, coverage, ...
  \<open>reads\<close> is the dict from record text to occurrence count, kept as an association
  list in insertion order (the order in which Python iterates a dict).
\<close>

type_synonym reads_dict = "(string \<times> int) list"

text \<open>\<open>k in d\<close>, \<open>d[k]\<close> (KeyError when absent) and \<open>d[k] = v\<close>.\<close>

definition dict_contains :: "reads_dict \<Rightarrow> string \<Rightarrow> bool" where
  "dict_contains d k = (k \<in> set (map fst d))"

definition dict_getitem :: "reads_dict \<Rightarrow> string \<Rightarrow> error + int" where
  "dict_getitem d k = (case map_of d k of None \<Rightarrow> Inl KeyError | Some v \<Rightarrow> Inr v)"

fun dict_setitem :: "reads_dict \<Rightarrow> string \<Rightarrow> int \<Rightarrow> reads_dict" where
  "dict_setitem [] k v = [(k, v)]"
| "dict_setitem ((k', v') # d) k v =
     (if k' = k then (k, v) # d else (k', v') # dict_setitem d k v)"

section \<open>init_poscov\<close>

text \<open>Line 88: the position of a row, \<open>int(each_line.split(',')[0])\<close>.\<close>

definition parse_locus :: "string \<Rightarrow> error + int" where
  "parse_locus each_line =
     (case py_getitem (split_comma each_line) 0 of
        Inl e \<Rightarrow> Inl e
      | Inr field \<Rightarrow> py_int field)"

fun init_poscov_loop :: "string list \<Rightarrow> int list \<Rightarrow> error + int list" where
  "init_poscov_loop [] loci = Inr loci"
| "init_poscov_loop (each_line # rest) loci =
     (case parse_locus each_line of
        Inl e \<Rightarrow> Inl e
      | Inr position \<Rightarrow> init_poscov_loop rest ((loci @ [position]) @ [0]))"

definition init_poscov :: "string \<Rightarrow> int list \<Rightarrow> error + int list" where
  "init_poscov loci_file loci = init_poscov_loop (drop 1 (open_rt loci_file)) loci"

section \<open>output_poscov\<close>

text \<open>
  The result is the exception raised, if any, and the text written to the output
  file up to that point.
\<close>

function output_loop :: "nat \<Rightarrow> nat \<Rightarrow> int list \<Rightarrow> string \<Rightarrow> error option \<times> string" where
  "output_loop each_field row_count loci output_fd =
     (if each_field < row_count then
        (case py_getitem loci each_field of
           Inl e \<Rightarrow> (Some e, output_fd)
         | Inr position \<Rightarrow>
             (case py_getitem loci (each_field + 1) of
                Inl e \<Rightarrow> (Some e, output_fd)
              | Inr coverage \<Rightarrow>
                  output_loop (each_field + 2) row_count loci
                    (output_fd @ py_str position @ '', '' @ py_str coverage @ [LF])))
      else (None, output_fd))"
  by pat_completeness auto
termination
  by (relation "measure (\<lambda>(each_field, row_count, loci, output_fd). row_count - each_field)") auto

declare output_loop.simps [simp del]

definition output_poscov :: "int list \<Rightarrow> error option \<times> string" where
  "output_poscov loci = output_loop 0 (length loci) loci (''position, coverage'' @ [LF])"

section \<open>init_reads\<close>

fun init_reads_loop :: "string list \<Rightarrow> reads_dict \<Rightarrow> error + reads_dict" where
  "init_reads_loop [] reads = Inr reads"
| "init_reads_loop (each_line # rest) reads =
     (let the_key = rstrip_nl each_line in
      if dict_contains reads the_key then
        (case dict_getitem reads the_key of
           Inl e \<Rightarrow> Inl e
         | Inr n \<Rightarrow> init_reads_loop rest (dict_setitem reads the_key (n + 1)))
      else init_reads_loop rest (dict_setitem reads the_key 1))"

definition init_reads :: "string \<Rightarrow> reads_dict \<Rightarrow> error + reads_dict" where
  "init_reads reads_file reads = init_reads_loop (drop 1 (open_rt reads_file)) reads"

section \<open>process\<close>

text \<open>Lines 212 to 215: the start and the end of the read named by a key.\<close>

definition parse_key :: "string \<Rightarrow> error + (int \<times> int)" where
  "parse_key each_key =
     (let each_fields = split_comma each_key in
      case py_getitem each_fields 0 of
        Inl e \<Rightarrow> Inl e
      | Inr f0 \<Rightarrow>
          (case py_int f0 of
             Inl e \<Rightarrow> Inl e
           | Inr start \<Rightarrow>
               (case py_getitem each_fields 1 of
                  Inl e \<Rightarrow> Inl e
                | Inr f1 \<Rightarrow>
                    (case py_int f1 of
                       Inl e \<Rightarrow> Inl e
                     | Inr len \<Rightarrow> Inr (start, start + len)))))"

text \<open>
  The inner loop over the keys of the dict, for the locus at index \<open>each_loci\<close>.
  The functions of this section return both objects they were passed, as they are
  when the call returns.
\<close>

fun for_each_key ::
  "int \<Rightarrow> nat \<Rightarrow> string list \<Rightarrow> int list \<Rightarrow> reads_dict \<Rightarrow> error + (int list \<times> reads_dict)" where
  "for_each_key the_locus each_loci [] loci reads = Inr (loci, reads)"
| "for_each_key the_locus each_loci (each_key # keys) loci reads =
     (case parse_key each_key of
        Inl e \<Rightarrow> Inl e
      | Inr (start, end') \<Rightarrow>
          if the_locus \<ge> start \<and> the_locus < end' then
            (case py_getitem loci (each_loci + 1) of
               Inl e \<Rightarrow> Inl e
             | Inr coverage \<Rightarrow>
                 (case dict_getitem reads each_key of
                    Inl e \<Rightarrow> Inl e
                  | Inr n \<Rightarrow>
                      for_each_key the_locus each_loci keys
                        (loci[each_loci + 1 := coverage + n]) reads))
          else for_each_key the_locus each_loci keys loci reads)"

function process_loop ::
  "nat \<Rightarrow> nat \<Rightarrow> int list \<Rightarrow> reads_dict \<Rightarrow> error + (int list \<times> reads_dict)" where
  "process_loop each_loci loci_count loci reads =
     (if each_loci < loci_count then
        (case py_getitem loci each_loci of
           Inl e \<Rightarrow> Inl e
         | Inr the_locus \<Rightarrow>
             (case for_each_key the_locus each_loci (map fst reads) loci reads of
                Inl e \<Rightarrow> Inl e
              | Inr (loci', reads') \<Rightarrow> process_loop (each_loci + 2) loci_count loci' reads'))
      else Inr (loci, reads))"
  by pat_completeness auto
termination
  by (relation "measure (\<lambda>(each_loci, loci_count, loci, reads). loci_count - each_loci)") auto

declare process_loop.simps [simp del]

definition process :: "int list \<Rightarrow> reads_dict \<Rightarrow> error + (int list \<times> reads_dict)" where
  "process loci reads = process_loop 0 (length loci) loci reads"

section \<open>main\<close>

text \<open>
  The run once the arguments have been accepted: the contents of the two input files
  and the output file as it was before (\<open>None\<close>: no such file). The result is the
  exception that ended the run, if any, and the output file afterwards.
\<close>

definition main :: "string \<Rightarrow> string \<Rightarrow> string option \<Rightarrow> error option \<times> string option" where
  "main loci_file reads_file output_file =
     (case init_poscov loci_file [] of
        Inl e \<Rightarrow> (Some e, output_file)
      | Inr loci \<Rightarrow>
          (case init_reads reads_file [] of
             Inl e \<Rightarrow> (Some e, output_file)
           | Inr reads \<Rightarrow>
               (case process loci reads of
                  Inl e \<Rightarrow> (Some e, output_file)
                | Inr (loci', reads') \<Rightarrow>
                    (case output_poscov loci' of
                       (e, written) \<Rightarrow> (e, Some written)))))"

section \<open>Notions used to state the properties\<close>

text \<open>
  The flat list that holds the given (position, coverage) pairs, and the list
  \<open>init_poscov\<close> builds for the given positions.
\<close>

definition flat :: "(int \<times> int) list \<Rightarrow> int list" where
  "flat pcs = concat (map (\<lambda>(p, c). [p, c]) pcs)"

definition fresh :: "int list \<Rightarrow> int list" where
  "fresh ps = flat (map (\<lambda>p. (p, 0)) ps)"

text \<open>
  A key covers a position when it parses and the position lies in the half-open
  interval from its start to its end; \<open>coverage_sum\<close> adds the counts of the keys
  that cover a position.
\<close>

definition covers :: "string \<Rightarrow> int \<Rightarrow> bool" where
  "covers k p = (case parse_key k of Inl e \<Rightarrow> False | Inr (s, e) \<Rightarrow> s \<le> p \<and> p < e)"

definition coverage_sum :: "reads_dict \<Rightarrow> int \<Rightarrow> int" where
  "coverage_sum reads p = (\<Sum>(k, m)\<leftarrow>reads. if covers k p then m else 0)"

definition keys_parse :: "reads_dict \<Rightarrow> bool" where
  "keys_parse reads = list_all (\<lambda>k. case parse_key k of Inl e \<Rightarrow> False | Inr se \<Rightarrow> True) (map fst reads)"

text \<open>
  The sum the inner loop adds for the keys it walks, with the counts looked up in the
  dict, and the pairs of a list after every coverage has grown by its sum.
\<close>

definition key_sum :: "reads_dict \<Rightarrow> string list \<Rightarrow> int \<Rightarrow> int" where
  "key_sum R ks p = (\<Sum>k\<leftarrow>ks. if covers k p then the (map_of R k) else 0)"

definition add_cov :: "reads_dict \<Rightarrow> (int \<times> int) list \<Rightarrow> (int \<times> int) list" where
  "add_cov R pcs = map (\<lambda>(p, c). (p, c + coverage_sum R p)) pcs"

text \<open>How many of the given records have the text \<open>k\<close> once their line feed is stripped.\<close>

definition occurrences :: "string list \<Rightarrow> string \<Rightarrow> nat" where
  "occurrences records k = count_list (map rstrip_nl records) k"

text \<open>
  The header line and the line that \<open>output_poscov\<close> writes for a pair; \<open>read_back_row\<close>,
  which is not part of loci.py, reads the first two fields of a line as integers.
\<close>

definition header_row :: string where
  "header_row = ''position, coverage'' @ [LF]"

definition output_row :: "int \<times> int \<Rightarrow> string" where
  "output_row pc = py_str (fst pc) @ '', '' @ py_str (snd pc) @ [LF]"

definition read_back_row :: "string \<Rightarrow> (error + int) \<times> (error + int)" where
  "read_back_row l =
     (parse_locus l,
      case py_getitem (split_comma l) 1 of Inl e \<Rightarrow> Inl e | Inr field \<Rightarrow> py_int field)"

section \<open>The inner loop\<close>

lemma for_each_key_frame:
  "for_each_key p i ks L R = Inr (L', R') \<Longrightarrow>
     R' = R \<and> length L' = length L \<and> (\<forall>j. j \<noteq> i + 1 \<longrightarrow> L' ! j = L ! j)"
proof (induction ks arbitrary: L)
  case Nil
  then show ?case by simp
next
  case (Cons k ks)
  then show ?case
    by (auto simp: py_getitem_def split: sum.splits prod.splits if_splits)
qed

lemma for_each_key_fails:
  "k \<in> set ks \<Longrightarrow> parse_key k = Inl e \<Longrightarrow> \<exists>e'. for_each_key p i ks L R = Inl e'"
proof (induction ks arbitrary: L)
  case Nil
  then show ?case by simp
next
  case (Cons a ks)
  show ?case
  proof (cases "a = k")
    case True
    with Cons.prems show ?thesis by simp
  next
    case False
    with Cons.prems have "k \<in> set ks" by simp
    from Cons.IH[OF this Cons.prems(2)] show ?thesis
      by (simp split: sum.splits prod.splits)
  qed
qed

lemma for_each_key_sum:
  assumes "i + 1 < length L"
    and "\<forall>k\<in>set ks. \<exists>se. parse_key k = Inr se"
    and "set ks \<subseteq> fst ` set R"
  shows "for_each_key p i ks L R = Inr (L[i + 1 := L ! (i + 1) + key_sum R ks p], R)"
  using assms
proof (induction ks arbitrary: L)
  case Nil
  then show ?case by (simp add: key_sum_def)
next
  case (Cons k ks)
  from Cons.prems obtain s e where pk: "parse_key k = Inr (s, e)" by fastforce
  from Cons.prems obtain m where mk: "map_of R k = Some m"
    by (metis list.set_intros(1) subsetD weak_map_of_SomeI map_of_eq_None_iff not_Some_eq)
  show ?case
  proof (cases "s \<le> p \<and> p < e")
    case True
    then have cv: "covers k p" by (simp add: covers_def pk)
    have len: "i + 1 < length (L[i + 1 := L ! (i + 1) + m])" using Cons.prems by simp
    show ?thesis
      using Cons.IH[OF len] Cons.prems True
      by (simp add: pk mk cv py_getitem_def dict_getitem_def key_sum_def add.assoc)
  next
    case False
    then have cv: "\<not> covers k p" by (auto simp add: covers_def pk)
    show ?thesis
      using Cons.IH[of L] Cons.prems False
      by (auto simp add: pk cv key_sum_def)
  qed
qed

lemma key_sum_distinct:
  "distinct (map fst R) \<Longrightarrow> key_sum R (map fst R) p = coverage_sum R p"
proof -
  assume d: "distinct (map fst R)"
  have "\<And>k m. (k, m) \<in> set R \<Longrightarrow> map_of R k = Some m" using d by simp
  then have "map (\<lambda>k. if covers k p then the (map_of R k) else 0) (map fst R)
     = map (\<lambda>(k, m). if covers k p then m else 0) R"
    by (auto simp: map_eq_conv)
  then show ?thesis by (simp only: key_sum_def coverage_sum_def)
qed

lemma flat_Nil: "flat [] = []"
  by (simp add: flat_def)

lemma flat_Cons: "flat ((p, c) # pcs) = p # c # flat pcs"
  by (simp add: flat_def)

lemma keys_parseD:
  "keys_parse R \<Longrightarrow> k \<in> fst ` set R \<Longrightarrow> \<exists>se. parse_key k = Inr se"
  by (cases "parse_key k") (auto simp: keys_parse_def list_all_iff)

lemma process_loop_flat:
  assumes "distinct (map fst R)" and "keys_parse R"
  shows "process_loop (length pre) (length pre + 2 * length pcs) (pre @ flat pcs) R
           = Inr (pre @ flat (add_cov R pcs), R)"
proof (induction pcs arbitrary: pre)
  case Nil
  show ?case by (subst process_loop.simps) (simp add: flat_Nil add_cov_def)
next
  case (Cons pc pcs)
  obtain p c where pc: "pc = (p, c)" by (cases pc)
  let ?L = "pre @ p # c # flat pcs"
  have kp: "\<forall>k\<in>set (map fst R). \<exists>se. parse_key k = Inr se"
    using keys_parseD[OF assms(2)] by simp
  have inner0: "for_each_key p (length pre) (map fst R) ?L R
      = Inr (?L[length pre + 1 := ?L ! (length pre + 1) + key_sum R (map fst R) p], R)"
    by (rule for_each_key_sum) (use kp in auto)
  have upd: "?L[length pre + 1 := ?L ! (length pre + 1) + key_sum R (map fst R) p]
      = (pre @ [p, c + coverage_sum R p]) @ flat pcs"
    by (simp add: key_sum_distinct[OF assms(1)] list_update_append nth_append)
  have inner: "for_each_key p (length pre) (map fst R) ?L R
      = Inr (pre @ p # (c + coverage_sum R p) # flat pcs, R)"
    unfolding inner0 upd by simp
  have get: "py_getitem ?L (length pre) = Inr p"
    by (simp add: py_getitem_def nth_append)
  have "process_loop (length pre) (length pre + 2 * length (pc # pcs)) (pre @ flat (pc # pcs)) R
      = process_loop (length pre) (length pre + 2 * length (pc # pcs)) ?L R"
    by (simp add: pc flat_Cons)
  also have "\<dots> = process_loop (length pre + 2) (length pre + 2 * length (pc # pcs))
                      ((pre @ [p, c + coverage_sum R p]) @ flat pcs) R"
    by (subst process_loop.simps) (simp add: get inner)
  also have "\<dots> = process_loop (length (pre @ [p, c + coverage_sum R p]))
                      (length (pre @ [p, c + coverage_sum R p]) + 2 * length pcs)
                      ((pre @ [p, c + coverage_sum R p]) @ flat pcs) R"
    by simp
  also have "\<dots> = Inr ((pre @ [p, c + coverage_sum R p]) @ flat (add_cov R pcs), R)"
    by (rule Cons.IH)
  finally show ?case by (simp add: pc flat_Cons add_cov_def)
qed

section \<open>The outer loop\<close>

lemma process_flat:
  assumes "distinct (map fst R)" and "keys_parse R"
  shows "process (flat pcs) R = Inr (flat (add_cov R pcs), R)"
proof -
  have len: "length (flat pcs) = 2 * length pcs"
    by (induction pcs) (auto simp: flat_Nil flat_Cons)
  show ?thesis
    using process_loop_flat[OF assms, of "[]" pcs] by (simp add: process_def len)
qed

lemma process_nil: "process [] R = Inr ([], R)"
  by (simp add: process_def process_loop.simps)

lemma process_fails:
  assumes "loci \<noteq> []" and "k \<in> fst ` set R" and "parse_key k = Inl e"
  shows "\<exists>e'. process loci R = Inl e'"
proof -
  from assms(2) have "k \<in> set (map fst R)" by simp
  from for_each_key_fails[OF this assms(3)]
  obtain e' where "for_each_key (loci ! 0) 0 (map fst R) loci R = Inl e'" by blast
  then show ?thesis using assms(1)
    by (subst process_def, subst process_loop.simps) (simp add: py_getitem_def)
qed

lemma process_succeeds_keys:
  assumes "process loci R = Inr r" and "loci \<noteq> []"
  shows "keys_parse R"
proof -
  have "\<And>k. k \<in> fst ` set R \<Longrightarrow> \<exists>se. parse_key k = Inr se"
  proof -
    fix k assume k: "k \<in> fst ` set R"
    show "\<exists>se. parse_key k = Inr se"
    proof (cases "parse_key k")
      case (Inl e)
      from process_fails[OF assms(2) k Inl] assms(1) show ?thesis by simp
    next
      case (Inr se)
      then show ?thesis by blast
    qed
  qed
  then show ?thesis by (fastforce simp: keys_parse_def list_all_iff)
qed

lemma process_loop_frame:
  "process_loop i n L R = Inr (L', R') \<Longrightarrow>
     R' = R \<and> length L' = length L \<and> (\<forall>j. even j = even i \<longrightarrow> L' ! j = L ! j)"
proof (induction i n L R rule: process_loop.induct)
  case (1 i n L R)
  show ?case
  proof (cases "i < n")
    case False
    with "1.prems" show ?thesis by (simp add: process_loop.simps)
  next
    case True
    from "1.prems" True obtain p L1 R1 where
      g: "py_getitem L i = Inr p" and
      f: "for_each_key p i (map fst R) L R = Inr (L1, R1)" and
      r: "process_loop (i + 2) n L1 R1 = Inr (L', R')"
      by (subst (asm) process_loop.simps) (auto split: sum.splits prod.splits)
    from for_each_key_frame[OF f] have
      f1: "R1 = R" "length L1 = length L" "\<forall>j. j \<noteq> i + 1 \<longrightarrow> L1 ! j = L ! j" by auto
    from "1.IH"[OF True g f refl r] have
      i1: "R' = R1" "length L' = length L1" "\<forall>j. even j = even (i + 2) \<longrightarrow> L' ! j = L1 ! j" by auto
    have "\<forall>j. even j = even i \<longrightarrow> L' ! j = L ! j"
    proof (intro allI impI)
      fix j :: nat assume e: "even j = even i"
      then have "j \<noteq> i + 1" by auto
      with f1(3) i1(3) e show "L' ! j = L ! j" by simp
    qed
    with f1 i1 show ?thesis by simp
  qed
qed

section \<open>Annotation changes only the coverages\<close>

text \<open>
  C8: annotation leaves the reads dict as it was and changes no position: the loci
  list keeps its length and every entry at an even index (the positions).
\<close>

theorem process_frame:
  "process loci reads = Inr (loci', reads') \<Longrightarrow>
     reads' = reads \<and> length loci' = length loci \<and> (\<forall>i. loci' ! (2 * i) = loci ! (2 * i))"
  using process_loop_frame[of 0 "length loci" loci reads loci' reads']
  by (simp add: process_def)

theorem process_frame_witness:
  "process [100, 0, 150, 0] [(''100,60'', 2), (''140,20'', 1)]
       = Inr ([100, 2, 150, 3], [(''100,60'', 2), (''140,20'', 1)])
   \<and> length [100, 2, 150, 3 :: int] = length [100, 0, 150, 0 :: int]
   \<and> (\<forall>i. [100, 2, 150, 3 :: int] ! (2 * i) = [100, 0, 150, 0 :: int] ! (2 * i))"
proof -
  have h: "process [100, 0, 150, 0] [(''100,60'', 2), (''140,20'', 1)]
       = Inr ([100, 2, 150, 3], [(''100,60'', 2), (''140,20'', 1)])"
    by code_simp
  from process_frame[OF h] h show ?thesis by simp
qed

section \<open>Coverage after annotation\<close>

lemma fresh_Nil: "fresh [] = []"
  by (simp add: fresh_def flat_Nil)

lemma fresh_Cons: "fresh (p # ps) = p # 0 # fresh ps"
  by (simp add: fresh_def flat_Cons)

lemma fresh_append: "fresh (ps @ qs) = fresh ps @ fresh qs"
  by (induction ps) (simp_all add: fresh_Nil fresh_Cons)

lemma add_cov_fresh:
  "flat (add_cov R (map (\<lambda>p. (p, 0)) ps)) = flat (map (\<lambda>p. (p, coverage_sum R p)) ps)"
  by (simp add: add_cov_def comp_def)

lemma process_fresh:
  assumes "distinct (map fst R)" and "process (fresh ps) R = Inr (L', R')"
  shows "L' = flat (map (\<lambda>p. (p, coverage_sum R p)) ps) \<and> R' = R"
proof (cases ps)
  case Nil
  with assms(2) show ?thesis by (simp add: fresh_Nil process_nil flat_Nil)
next
  case (Cons p qs)
  then have "fresh ps \<noteq> []" by (simp add: fresh_Cons)
  from process_succeeds_keys[OF assms(2) this] have kp: "keys_parse R" .
  from process_flat[OF assms(1) kp, of "map (\<lambda>p. (p, 0)) ps"]
  have "process (fresh ps) R = Inr (flat (map (\<lambda>p. (p, coverage_sum R p)) ps), R)"
    by (simp only: fresh_def add_cov_fresh)
  with assms(2) show ?thesis by auto
qed

lemma coverage_sum_zero:
  "\<forall>k\<in>fst ` set R. \<not> covers k p \<Longrightarrow> coverage_sum R p = 0"
proof -
  assume a: "\<forall>k\<in>fst ` set R. \<not> covers k p"
  have "map (\<lambda>(k, m). if covers k p then m else 0) R = map (\<lambda>x. 0) R"
    using a by (auto simp: map_eq_conv)
  then have "coverage_sum R p = sum_list (map (\<lambda>x. 0) R)"
    by (simp only: coverage_sum_def)
  then show ?thesis by simp
qed

text \<open>
  C1: when annotation of the list built for the positions \<open>ps\<close> (every coverage 0)
  with a dict of distinct keys returns, the list holds each position followed by the
  sum of the counts of the keys whose interval contains it; a position that no key
  covers has coverage 0.
\<close>

theorem process_coverage:
  assumes "distinct (map fst reads)"
    and "process (fresh ps) reads = Inr (loci', reads')"
  shows "loci' = flat (map (\<lambda>p. (p, \<Sum>(k, m)\<leftarrow>reads. if covers k p then m else 0)) ps)
       \<and> (\<forall>p. (\<forall>k\<in>fst ` set reads. \<not> covers k p) \<longrightarrow>
               (\<Sum>(k, m)\<leftarrow>reads. if covers k p then m else 0) = 0)"
  using process_fresh[OF assms] coverage_sum_zero[of reads]
  by (simp add: coverage_sum_def)

theorem process_coverage_witness:
  "distinct (map fst [(''100,60'', 2 :: int), (''140,20'', 1)])
   \<and> process (fresh [100, 150, 200]) [(''100,60'', 2), (''140,20'', 1)]
       = Inr ([100, 2, 150, 3, 200, 0], [(''100,60'', 2), (''140,20'', 1)])
   \<and> [100, 2, 150, 3, 200, 0]
       = flat (map (\<lambda>p. (p, \<Sum>(k, m)\<leftarrow>[(''100,60'', 2), (''140,20'', 1)]. if covers k p then m else 0))
            [100, 150, 200])"
proof -
  have d: "distinct (map fst [(''100,60'', 2 :: int), (''140,20'', 1)])"
    by simp
  have h: "process (fresh [100, 150, 200]) [(''100,60'', 2), (''140,20'', 1)]
       = Inr ([100, 2, 150, 3, 200, 0], [(''100,60'', 2), (''140,20'', 1)])"
    by code_simp
  note r = process_coverage[OF d h]
  show ?thesis
    by (intro conjI) (rule d, rule h, rule r[THEN conjunct1])
qed

lemma init_poscov_loop_ok:
  "map parse_locus ls = map Inr ps \<Longrightarrow> init_poscov_loop ls L = Inr (L @ fresh ps)"
proof (induction ls arbitrary: ps L)
  case Nil
  then show ?case by (simp add: fresh_Nil)
next
  case (Cons l ls)
  then obtain p qs where ps: "ps = p # qs" "parse_locus l = Inr p" "map parse_locus ls = map Inr qs"
    by (cases ps) auto
  from Cons.IH[OF ps(3), of "(L @ [p]) @ [0]"] show ?case
    by (simp add: ps fresh_Cons)
qed

lemma init_poscov_loop_fails:
  "l \<in> set ls \<Longrightarrow> parse_locus l = Inl e \<Longrightarrow> \<exists>e'. init_poscov_loop ls L = Inl e'"
proof (induction ls arbitrary: L)
  case Nil
  then show ?case by simp
next
  case (Cons a ls)
  show ?case
  proof (cases "a = l")
    case True
    with Cons.prems show ?thesis by simp
  next
    case False
    with Cons.prems have "l \<in> set ls" by simp
    from Cons.IH[OF this Cons.prems(2)] show ?thesis
      by (simp split: sum.splits)
  qed
qed

lemma init_poscov_loop_Inr:
  "init_poscov_loop ls L = Inr L' \<Longrightarrow> \<exists>ps. map parse_locus ls = map Inr ps \<and> L' = L @ fresh ps"
proof (induction ls arbitrary: L)
  case Nil
  then show ?case by (simp add: fresh_Nil)
next
  case (Cons l ls)
  from Cons.prems obtain p where p: "parse_locus l = Inr p"
    and r: "init_poscov_loop ls ((L @ [p]) @ [0]) = Inr L'"
    by (auto split: sum.splits)
  from Cons.IH[OF r] obtain qs where qs: "map parse_locus ls = map Inr qs" "L' = ((L @ [p]) @ [0]) @ fresh qs"
    by blast
  have "map parse_locus (l # ls) = map Inr (p # qs) \<and> L' = L @ fresh (p # qs)"
    using p qs by (simp add: fresh_Cons)
  then show ?case by blast
qed

section \<open>Building the reads dict\<close>

lemma map_of_dict_setitem: "map_of (dict_setitem d k v) = (map_of d)(k \<mapsto> v)"
  by (induction d k v rule: dict_setitem.induct) auto

lemma keys_dict_setitem:
  "map fst (dict_setitem d k v) = (if k \<in> set (map fst d) then map fst d else map fst d @ [k])"
  by (induction d k v rule: dict_setitem.induct) auto

lemma distinct_dict_setitem:
  "distinct (map fst d) \<Longrightarrow> distinct (map fst (dict_setitem d k v))"
  by (simp add: keys_dict_setitem)

lemma dict_getitem_contains:
  "dict_contains d k \<Longrightarrow> \<exists>n. dict_getitem d k = Inr n \<and> map_of d k = Some n"
  by (cases "map_of d k") (auto simp: dict_contains_def dict_getitem_def map_of_eq_None_iff)

lemma not_contains_None: "\<not> dict_contains d k \<Longrightarrow> map_of d k = None"
  by (simp add: dict_contains_def map_of_eq_None_iff)

lemma init_reads_loop_counts:
  "distinct (map fst R) \<Longrightarrow>
   \<exists>R'. init_reads_loop ls R = Inr R' \<and> distinct (map fst R') \<and>
     (\<forall>k. map_of R' k =
        (if occurrences ls k = 0 then map_of R k
         else Some ((case map_of R k of None \<Rightarrow> 0 | Some m \<Rightarrow> m) + int (occurrences ls k))))"
proof (induction ls arbitrary: R)
  case Nil
  then show ?case by (simp add: occurrences_def)
next
  case (Cons l ls)
  let ?key = "rstrip_nl l"
  show ?case
  proof (cases "dict_contains R ?key")
    case True
    from dict_getitem_contains[OF True] obtain n where
      n: "dict_getitem R ?key = Inr n" "map_of R ?key = Some n" by blast
    let ?R1 = "dict_setitem R ?key (n + 1)"
    from Cons.IH[OF distinct_dict_setitem[OF Cons.prems], of ?key "n + 1"]
    obtain R' where R': "init_reads_loop ls ?R1 = Inr R'" "distinct (map fst R')"
      "\<forall>k. map_of R' k =
        (if occurrences ls k = 0 then map_of ?R1 k
         else Some ((case map_of ?R1 k of None \<Rightarrow> 0 | Some m \<Rightarrow> m) + int (occurrences ls k)))"
      by blast
    have "init_reads_loop (l # ls) R = Inr R'"
      using True n R'(1) by (simp add: Let_def)
    moreover have "\<forall>k. map_of R' k =
        (if occurrences (l # ls) k = 0 then map_of R k
         else Some ((case map_of R k of None \<Rightarrow> 0 | Some m \<Rightarrow> m) + int (occurrences (l # ls) k)))"
      using R'(3) n(2) by (auto simp: map_of_dict_setitem occurrences_def)
    ultimately show ?thesis using R'(2) by blast
  next
    case False
    from not_contains_None[OF False] have n: "map_of R ?key = None" .
    let ?R1 = "dict_setitem R ?key 1"
    from Cons.IH[OF distinct_dict_setitem[OF Cons.prems], of ?key 1]
    obtain R' where R': "init_reads_loop ls ?R1 = Inr R'" "distinct (map fst R')"
      "\<forall>k. map_of R' k =
        (if occurrences ls k = 0 then map_of ?R1 k
         else Some ((case map_of ?R1 k of None \<Rightarrow> 0 | Some m \<Rightarrow> m) + int (occurrences ls k)))"
      by blast
    have "init_reads_loop (l # ls) R = Inr R'"
      using False R'(1) by (simp add: Let_def)
    moreover have "\<forall>k. map_of R' k =
        (if occurrences (l # ls) k = 0 then map_of R k
         else Some ((case map_of R k of None \<Rightarrow> 0 | Some m \<Rightarrow> m) + int (occurrences (l # ls) k)))"
      using R'(3) n by (auto simp: map_of_dict_setitem occurrences_def)
    ultimately show ?thesis using R'(2) by blast
  qed
qed

lemma for_each_key_single:
  assumes "parse_key k = Inr (s, e)" and "s \<le> p" and "p < e" and "map_of R k = Some n"
  shows "for_each_key p 0 [k] [p, c] R = Inr ([p, c + n], R)"
  using assms by (simp add: py_getitem_def dict_getitem_def)

text \<open>
  C2: building the dict from a reads file never fails; the keys are distinct, the
  count stored for a text is the number of post-header records that have that text
  once stripped of their line feed (absent when there is none), so every stored count
  is at least 1; and for a locus that a stored key covers, the inner loop adds that
  number in one step.
\<close>

theorem init_reads_multiplicity:
  "\<exists>reads. init_reads reads_file [] = Inr reads \<and> distinct (map fst reads)
     \<and> (\<forall>k. map_of reads k =
           (if occurrences (drop 1 (open_rt reads_file)) k = 0 then None
            else Some (int (occurrences (drop 1 (open_rt reads_file)) k))))
     \<and> (\<forall>(k, m)\<in>set reads. 1 \<le> m \<and> m = int (occurrences (drop 1 (open_rt reads_file)) k))
     \<and> (\<forall>k p c s e. k \<in> fst ` set reads \<and> parse_key k = Inr (s, e) \<and> s \<le> p \<and> p < e \<longrightarrow>
           for_each_key p 0 [k] [p, c] reads
             = Inr ([p, c + int (occurrences (drop 1 (open_rt reads_file)) k)], reads))"
proof -
  let ?recs = "drop 1 (open_rt reads_file)"
  from init_reads_loop_counts[of "[]" ?recs]
  obtain R where R: "init_reads_loop ?recs [] = Inr R" "distinct (map fst R)"
    and m: "\<And>k. map_of R k = (if occurrences ?recs k = 0 then None else Some (int (occurrences ?recs k)))"
    by auto
  have pos: "\<forall>(k, m)\<in>set R. 1 \<le> m \<and> m = int (occurrences ?recs k)"
  proof (clarify)
    fix k n assume "(k, n) \<in> set R"
    with R(2) have "map_of R k = Some n" by simp
    with m[of k] show "1 \<le> n \<and> n = int (occurrences ?recs k)"
      by (auto split: if_splits)
  qed
  have contrib: "\<forall>k p c s e. k \<in> fst ` set R \<and> parse_key k = Inr (s, e) \<and> s \<le> p \<and> p < e \<longrightarrow>
           for_each_key p 0 [k] [p, c] R = Inr ([p, c + int (occurrences ?recs k)], R)"
  proof (intro allI impI)
    fix k p c s e
    assume a: "k \<in> fst ` set R \<and> parse_key k = Inr (s, e) \<and> s \<le> p \<and> p < e"
    then obtain n where "(k, n) \<in> set R" by auto
    with R(2) pos have "map_of R k = Some (int (occurrences ?recs k))" by auto
    with a show "for_each_key p 0 [k] [p, c] R = Inr ([p, c + int (occurrences ?recs k)], R)"
      by (intro for_each_key_single[where s=s and e=e]) auto
  qed
  have "init_reads reads_file [] = Inr R" using R(1) by (simp add: init_reads_def)
  with R(2) m pos contrib show ?thesis by blast
qed

theorem init_reads_multiplicity_witness:
  "\<exists>reads. init_reads (''start,length'' @ [LF] @ ''100,60'' @ [LF] @ ''100,60'' @ [LF] @ ''140,20'') [] = Inr reads
     \<and> map_of reads ''100,60'' = Some 2
     \<and> map_of reads ''140,20'' = Some 1
     \<and> map_of reads ''100,6'' = None
     \<and> for_each_key 150 0 [''100,60''] [150, 0] reads = Inr ([150, 2], reads)"
proof -
  let ?f = "''start,length'' @ [LF] @ ''100,60'' @ [LF] @ ''100,60'' @ [LF] @ ''140,20''"
  from init_reads_multiplicity[of ?f]
  obtain R where R: "init_reads ?f [] = Inr R"
    and m: "\<And>k. map_of R k =
           (if occurrences (drop 1 (open_rt ?f)) k = 0 then None
            else Some (int (occurrences (drop 1 (open_rt ?f)) k)))"
    and c: "\<And>k p c s e. k \<in> fst ` set R \<and> parse_key k = Inr (s, e) \<and> s \<le> p \<and> p < e \<Longrightarrow>
           for_each_key p 0 [k] [p, c] R
             = Inr ([p, c + int (occurrences (drop 1 (open_rt ?f)) k)], R)"
    by blast
  have o1: "occurrences (drop 1 (open_rt ?f)) ''100,60'' = 2" by code_simp
  have o2: "occurrences (drop 1 (open_rt ?f)) ''140,20'' = 1" by code_simp
  have o3: "occurrences (drop 1 (open_rt ?f)) ''100,6'' = 0" by code_simp
  have pk: "parse_key ''100,60'' = Inr (100, 160)" by code_simp
  have m1: "map_of R ''100,60'' = Some 2" using m[of "''100,60''"] by (simp only: o1) simp
  have m2: "map_of R ''140,20'' = Some 1" using m[of "''140,20''"] by (simp only: o2) simp
  have m3: "map_of R ''100,6'' = None" using m[of "''100,6''"] by (simp only: o3) simp
  from map_of_SomeD[OF m1] have inR: "''100,60'' \<in> fst ` set R" by force
  have "for_each_key 150 0 [''100,60''] [150, 0] R
      = Inr ([150, 0 + int (occurrences (drop 1 (open_rt ?f)) ''100,60'')], R)"
    by (rule c[where s=100 and e=160]) (use inR pk in simp)
  then have c1: "for_each_key 150 0 [''100,60''] [150, 0] R = Inr ([150, 2], R)"
    by (simp only: o1) simp
  from R m1 m2 m3 c1 show ?thesis by blast
qed

section \<open>Interval membership\<close>

lemma parse_key_fields:
  "split_comma key = f0 # f1 # more \<Longrightarrow> py_int f0 = Inr s \<Longrightarrow> py_int f1 = Inr l \<Longrightarrow>
     parse_key key = Inr (s, s + l)"
  by (simp add: parse_key_def py_getitem_def)

lemma process_fresh_ok:
  assumes "distinct (map fst R)" and "ps = [] \<or> keys_parse R"
  shows "process (fresh ps) R = Inr (flat (map (\<lambda>p. (p, coverage_sum R p)) ps), R)"
proof (cases "ps = []")
  case True
  then show ?thesis by (simp add: fresh_Nil flat_Nil process_nil)
next
  case False
  with assms(2) have kp: "keys_parse R" by simp
  from process_flat[OF assms(1) kp, of "map (\<lambda>p. (p, 0)) ps"]
  show ?thesis by (simp only: fresh_def add_cov_fresh)
qed

lemma fresh_eq_Nil: "fresh ps = [] \<longleftrightarrow> ps = []"
  by (cases ps) (simp_all add: fresh_Nil fresh_Cons)

text \<open>
  C3: for a key whose first two fields parse to \<open>s\<close> and \<open>l\<close>, annotation of a single
  locus at position \<open>p\<close> adds the key's count exactly when \<open>s \<le> p < s + l\<close>.
\<close>

theorem membership_half_open:
  assumes "split_comma key = f0 # f1 # more" and "py_int f0 = Inr s" and "py_int f1 = Inr l"
  shows "process [p, c] [(key, m)]
           = Inr ([p, if s \<le> p \<and> p < s + l then c + m else c], [(key, m)])"
proof -
  have pk: "parse_key key = Inr (s, s + l)" by (rule parse_key_fields[OF assms])
  have kp: "keys_parse [(key, m)]" by (simp add: keys_parse_def pk)
  have "process (flat [(p, c)]) [(key, m)] = Inr (flat (add_cov [(key, m)] [(p, c)]), [(key, m)])"
    by (rule process_flat) (simp_all add: kp)
  then show ?thesis
    by (simp add: flat_Cons flat_Nil add_cov_def coverage_sum_def covers_def pk)
qed

theorem membership_half_open_witness:
  "process [100, 0] [(''100,50'', 1)] = Inr ([100, 1], [(''100,50'', 1)])
   \<and> process [149, 0] [(''100,50'', 1)] = Inr ([149, 1], [(''100,50'', 1)])
   \<and> process [150, 0] [(''100,50'', 1)] = Inr ([150, 0], [(''100,50'', 1)])
   \<and> process [99, 0] [(''100,50'', 1)] = Inr ([99, 0], [(''100,50'', 1)])"
proof -
  have f: "split_comma ''100,50'' = ''100'' # ''50'' # []" by code_simp
  have s: "py_int ''100'' = Inr 100" by code_simp
  have l: "py_int ''50'' = Inr 50" by code_simp
  note t = membership_half_open[OF f s l]
  show ?thesis
    using t[of 100 0 1] t[of 149 0 1] t[of 150 0 1] t[of 99 0 1] by simp
qed

lemma coverage_sum_append:
  "coverage_sum (xs @ ys) p = coverage_sum xs p + coverage_sum ys p"
  by (simp add: coverage_sum_def)

lemma coverage_sum_Cons:
  "coverage_sum ((k, m) # ys) p = (if covers k p then m else 0) + coverage_sum ys p"
  by (simp add: coverage_sum_def)

lemma keys_parse_drop:
  "keys_parse (xs @ x # ys) \<Longrightarrow> keys_parse (xs @ ys)"
  by (simp add: keys_parse_def)

text \<open>
  C10: a key whose length field parses to zero or less covers no position, and a dict
  entry with such a key, whatever its count, changes no coverage: annotation without
  the entry returns the same loci list.
\<close>

theorem empty_interval_no_contribution:
  assumes "split_comma key = f0 # f1 # more" and "py_int f0 = Inr s" and "py_int f1 = Inr l"
    and "l \<le> 0"
    and "distinct (map fst (xs @ (key, m) # ys))"
    and "process (fresh ps) (xs @ (key, m) # ys) = Inr (loci', reads')"
  shows "(\<forall>p. \<not> covers key p) \<and> process (fresh ps) (xs @ ys) = Inr (loci', xs @ ys)"
proof -
  have pk: "parse_key key = Inr (s, s + l)" by (rule parse_key_fields[OF assms(1-3)])
  have nc: "\<And>p. \<not> covers key p" using assms(4) by (simp add: covers_def pk)
  have cs: "\<And>p. coverage_sum (xs @ (key, m) # ys) p = coverage_sum (xs @ ys) p"
    by (simp add: coverage_sum_append coverage_sum_Cons nc)
  from process_fresh[OF assms(5,6)]
  have l': "loci' = flat (map (\<lambda>p. (p, coverage_sum (xs @ ys) p)) ps)"
    by (simp only: cs)
  have "ps = [] \<or> keys_parse (xs @ (key, m) # ys)"
    using process_succeeds_keys[OF assms(6)] by (auto simp: fresh_eq_Nil)
  then have ok: "ps = [] \<or> keys_parse (xs @ ys)" by (auto dest: keys_parse_drop)
  have d: "distinct (map fst (xs @ ys))" using assms(5) by simp
  from process_fresh_ok[OF d ok] l' nc show ?thesis by simp
qed

theorem empty_interval_no_contribution_witness:
  "process (fresh [100, 99]) ([(''100,60'', 2)] @ (''100,-5'', 7) # [(''99,0'', 4)])
       = Inr ([100, 2, 99, 0], [(''100,60'', 2), (''100,-5'', 7), (''99,0'', 4)])
   \<and> (\<forall>p. \<not> covers ''100,-5'' p)
   \<and> process (fresh [100, 99]) ([(''100,60'', 2)] @ [(''99,0'', 4)])
       = Inr ([100, 2, 99, 0], [(''100,60'', 2)] @ [(''99,0'', 4)])"
proof -
  have f: "split_comma ''100,-5'' = ''100'' # ''-5'' # []" by code_simp
  have s: "py_int ''100'' = Inr 100" by code_simp
  have l: "py_int ''-5'' = Inr (- 5)" by code_simp
  have n: "(- 5 :: int) \<le> 0" by simp
  have d: "distinct (map fst ([(''100,60'', 2 :: int)] @ (''100,-5'', 7) # [(''99,0'', 4)]))" by simp
  have h: "process (fresh [100, 99]) ([(''100,60'', 2)] @ (''100,-5'', 7) # [(''99,0'', 4)])
       = Inr ([100, 2, 99, 0], [(''100,60'', 2), (''100,-5'', 7), (''99,0'', 4)])"
    by code_simp
  note t = empty_interval_no_contribution[OF f s l n d h]
  show ?thesis
    by (intro conjI) (rule h, rule t[THEN conjunct1], rule t[THEN conjunct2])
qed

section \<open>Order of iteration\<close>

lemma length_flat: "length (flat pcs) = 2 * length pcs"
  by (induction pcs) (auto simp: flat_Nil flat_Cons)

lemma nth_flat:
  "i < length pcs \<Longrightarrow> flat pcs ! (2 * i) = fst (pcs ! i) \<and> flat pcs ! (2 * i + 1) = snd (pcs ! i)"
proof (induction pcs arbitrary: i)
  case Nil
  then show ?case by simp
next
  case (Cons pc pcs)
  obtain p c where pc: "pc = (p, c)" by (cases pc)
  show ?case
  proof (cases i)
    case 0
    then show ?thesis by (simp add: pc flat_Cons)
  next
    case (Suc j)
    with Cons.prems have "j < length pcs" by simp
    from Cons.IH[OF this] show ?thesis by (simp add: pc flat_Cons Suc)
  qed
qed

lemma coverage_sum_mset:
  assumes "mset R2 = mset R"
  shows "coverage_sum R2 p = coverage_sum R p"
proof -
  let ?f = "\<lambda>(k, m). if covers k p then m else (0 :: int)"
  have "sum_list (map ?f R2) = sum_mset (image_mset ?f (mset R2))"
    using sum_mset_sum_list[of "map ?f R2"] by simp
  also have "\<dots> = sum_mset (image_mset ?f (mset R))" by (simp only: assms)
  also have "\<dots> = sum_list (map ?f R)"
    using sum_mset_sum_list[of "map ?f R"] by simp
  finally show ?thesis by (simp only: coverage_sum_def)
qed

lemma keys_parse_mset: "mset R2 = mset R \<Longrightarrow> keys_parse R \<Longrightarrow> keys_parse R2"
  using mset_eq_setD[of R2 R] by (simp add: keys_parse_def list_all_iff)

lemma distinct_keys_mset:
  assumes "mset R2 = mset R" and "distinct (map fst R)"
  shows "distinct (map fst R2)"
proof -
  have "mset (map fst R2) = mset (map fst R)" using assms(1) by simp
  from mset_eq_imp_distinct_iff[OF this] assms(2) show ?thesis by simp
qed

text \<open>
  C7: let annotation of the loci at positions \<open>ps\<close> with a dict return. Then so does
  annotation with the same entries walked in any other order and with the loci
  rearranged by any permutation \<open>perm\<close> of their indices, and the locus that comes
  from index \<open>perm ! j\<close> has its position and the coverage it had in the first run.
\<close>

theorem process_order_independent:
  assumes "distinct (map fst reads)"
    and "mset reads2 = mset reads"
    and "mset perm = mset [0..<length ps]"
    and "process (fresh ps) reads = Inr (loci1, reads1)"
  shows "\<exists>loci2. process (fresh (map (\<lambda>i. ps ! i) perm)) reads2 = Inr (loci2, reads2)
           \<and> length loci2 = length loci1
           \<and> (\<forall>j<length ps. loci2 ! (2 * j) = loci1 ! (2 * (perm ! j))
                           \<and> loci2 ! (2 * j + 1) = loci1 ! (2 * (perm ! j) + 1))"
proof -
  let ?ps2 = "map (\<lambda>i. ps ! i) perm"
  let ?c = "\<lambda>p. (p, coverage_sum reads p)"
  have lp: "length perm = length ps" using mset_eq_length[OF assms(3)] by simp
  have sp: "set perm = {0..<length ps}" using mset_eq_setD[OF assms(3)] by simp
  from process_fresh[OF assms(1,4)] have l1: "loci1 = flat (map ?c ps)" by simp
  have ok: "ps = [] \<or> keys_parse reads"
    using process_succeeds_keys[OF assms(4)] by (auto simp: fresh_eq_Nil)
  have ok2: "?ps2 = [] \<or> keys_parse reads2"
    using ok lp keys_parse_mset[OF assms(2)] by auto
  have d2: "distinct (map fst reads2)" by (rule distinct_keys_mset[OF assms(2,1)])
  have cs: "\<And>p. coverage_sum reads2 p = coverage_sum reads p"
    by (rule coverage_sum_mset[OF assms(2)])
  let ?l2 = "flat (map ?c ?ps2)"
  have run2: "process (fresh ?ps2) reads2 = Inr (?l2, reads2)"
    using process_fresh_ok[OF d2 ok2] by (simp only: cs)
  have len: "length ?l2 = length loci1" by (simp add: l1 length_flat lp)
  have nth: "\<forall>j<length ps. ?l2 ! (2 * j) = loci1 ! (2 * (perm ! j))
                           \<and> ?l2 ! (2 * j + 1) = loci1 ! (2 * (perm ! j) + 1)"
  proof (intro allI impI)
    fix j assume j: "j < length ps"
    then have jp: "j < length perm" by (simp add: lp)
    then have "perm ! j \<in> set perm" by simp
    then have pj: "perm ! j < length ps" by (simp add: sp)
    have a: "j < length (map ?c ?ps2)" using jp by simp
    have b: "perm ! j < length (map ?c ps)" using pj by simp
    show "?l2 ! (2 * j) = loci1 ! (2 * (perm ! j))
           \<and> ?l2 ! (2 * j + 1) = loci1 ! (2 * (perm ! j) + 1)"
      using nth_flat[OF a] nth_flat[OF b] jp pj by (simp add: l1)
  qed
  show ?thesis
    by (rule exI[of _ ?l2]) (intro conjI, rule run2, rule len, rule nth)
qed

theorem process_order_independent_witness:
  "distinct (map fst [(''100,60'', 2 :: int), (''140,20'', 1)])
   \<and> mset [(''140,20'', 1 :: int), (''100,60'', 2)] = mset [(''100,60'', 2), (''140,20'', 1)]
   \<and> mset [2, 0, 1] = mset [0..<length [100, 150, 200 :: int]]
   \<and> process (fresh [100, 150, 200]) [(''100,60'', 2), (''140,20'', 1)]
       = Inr ([100, 2, 150, 3, 200, 0], [(''100,60'', 2), (''140,20'', 1)])
   \<and> (\<exists>loci2. process (fresh (map (\<lambda>i. [100, 150, 200] ! i) [2, 0, 1])) [(''140,20'', 1), (''100,60'', 2)]
                  = Inr (loci2, [(''140,20'', 1), (''100,60'', 2)])
           \<and> length loci2 = length [100, 2, 150, 3, 200, 0 :: int]
           \<and> (\<forall>j<length [100, 150, 200 :: int].
                  loci2 ! (2 * j) = [100, 2, 150, 3, 200, 0] ! (2 * ([2, 0, 1] ! j))
                \<and> loci2 ! (2 * j + 1) = [100, 2, 150, 3, 200, 0] ! (2 * ([2, 0, 1] ! j) + 1)))"
proof -
  have d: "distinct (map fst [(''100,60'', 2 :: int), (''140,20'', 1)])"
    by simp
  have r: "mset [(''140,20'', 1 :: int), (''100,60'', 2)] = mset [(''100,60'', 2), (''140,20'', 1)]"
    by simp
  have u: "[0..<length [100, 150, 200 :: int]] = [0, 1, 2]"
    by code_simp
  have p: "mset [2, 0, 1] = mset [0..<length [100, 150, 200 :: int]]"
    by (simp only: u) simp
  have h: "process (fresh [100, 150, 200]) [(''100,60'', 2), (''140,20'', 1)]
       = Inr ([100, 2, 150, 3, 200, 0], [(''100,60'', 2), (''140,20'', 1)])"
    by code_simp
  show ?thesis
    by (intro conjI) (rule d, rule r, rule p, rule h, rule process_order_independent[OF d r p h])
qed

section \<open>Malformed reads fail at annotation\<close>

lemma init_reads_keys:
  assumes "\<And>k. map_of R k = (if occurrences recs k = 0 then None else Some (int (occurrences recs k)))"
  shows "fst ` set R = set (map rstrip_nl recs)"
proof -
  have "\<And>k. k \<in> fst ` set R \<longleftrightarrow> k \<in> set (map rstrip_nl recs)"
  proof -
    fix k
    have "k \<in> fst ` set R \<longleftrightarrow> map_of R k \<noteq> None" by (simp add: map_of_eq_None_iff)
    also have "\<dots> \<longleftrightarrow> occurrences recs k \<noteq> 0" by (simp add: assms)
    also have "\<dots> \<longleftrightarrow> k \<in> set (map rstrip_nl recs)"
      by (simp only: occurrences_def count_list_0_iff) simp
    finally show "k \<in> fst ` set R \<longleftrightarrow> k \<in> set (map rstrip_nl recs)" .
  qed
  then show ?thesis by blast
qed

lemma init_reads_built:
  "\<exists>R. init_reads reads_file [] = Inr R \<and> distinct (map fst R)
       \<and> fst ` set R = set (map rstrip_nl (drop 1 (open_rt reads_file)))"
proof -
  let ?recs = "drop 1 (open_rt reads_file)"
  from init_reads_loop_counts[of "[]" ?recs]
  obtain R where R: "init_reads_loop ?recs [] = Inr R" "distinct (map fst R)"
    and m: "\<And>k. map_of R k = (if occurrences ?recs k = 0 then None else Some (int (occurrences ?recs k)))"
    by auto
  from init_reads_keys[of R ?recs, OF m] R show ?thesis
    by (auto simp: init_reads_def)
qed

text \<open>
  C9: building the dict returns a dict for every reads file, with the stripped text of
  every post-header record as a key, whatever that text is; a record whose key does not
  parse makes annotation fail, as soon as there is a locus to annotate.
\<close>

theorem init_reads_never_fails:
  "\<exists>reads. init_reads reads_file [] = Inr reads
     \<and> fst ` set reads = set (map rstrip_nl (drop 1 (open_rt reads_file)))
     \<and> (\<forall>l\<in>set (drop 1 (open_rt reads_file)). \<forall>e loci.
           parse_key (rstrip_nl l) = Inl e \<and> loci \<noteq> [] \<longrightarrow> (\<exists>e'. process loci reads = Inl e'))"
proof -
  from init_reads_built[of reads_file]
  obtain R where R: "init_reads reads_file [] = Inr R"
    and k: "fst ` set R = set (map rstrip_nl (drop 1 (open_rt reads_file)))" by blast
  have late: "\<forall>l\<in>set (drop 1 (open_rt reads_file)). \<forall>e loci.
           parse_key (rstrip_nl l) = Inl e \<and> loci \<noteq> [] \<longrightarrow> (\<exists>e'. process loci R = Inl e')"
  proof (intro ballI allI impI)
    fix l e and loci :: "int list"
    assume l: "l \<in> set (drop 1 (open_rt reads_file))"
      and a: "parse_key (rstrip_nl l) = Inl e \<and> loci \<noteq> []"
    from l k have "rstrip_nl l \<in> fst ` set R" by simp
    with a show "\<exists>e'. process loci R = Inl e'"
      by (intro process_fails[where k="rstrip_nl l" and e=e]) auto
  qed
  show ?thesis
    by (rule exI[of _ R]) (intro conjI, rule R, rule k, rule late)
qed

theorem init_reads_never_fails_witness:
  "\<exists>reads. init_reads (''start,length'' @ [LF] @ ''not a read'' @ [LF] @ ''7'' @ [LF]) [] = Inr reads
     \<and> ''not a read'' \<in> fst ` set reads
     \<and> (\<exists>e'. process [5, 0] reads = Inl e')"
proof -
  let ?f = "''start,length'' @ [LF] @ ''not a read'' @ [LF] @ ''7'' @ [LF]"
  from init_reads_never_fails[of ?f]
  obtain R where all: "init_reads ?f [] = Inr R
     \<and> fst ` set R = set (map rstrip_nl (drop 1 (open_rt ?f)))
     \<and> (\<forall>l\<in>set (drop 1 (open_rt ?f)). \<forall>e loci.
           parse_key (rstrip_nl l) = Inl e \<and> loci \<noteq> [] \<longrightarrow> (\<exists>e'. process loci R = Inl e'))" ..
  note R = all[THEN conjunct1]
  note k = all[THEN conjunct2, THEN conjunct1]
  note p = all[THEN conjunct2, THEN conjunct2, rule_format]
  have l: "''not a read'' @ [LF] \<in> set (drop 1 (open_rt ?f))" by code_simp
  have e: "parse_key (rstrip_nl (''not a read'' @ [LF])) = Inl ValueError" by code_simp
  have n: "[5, 0 :: int] \<noteq> []" by simp
  have m: "''not a read'' \<in> set (map rstrip_nl (drop 1 (open_rt ?f)))" by code_simp
  have f: "\<exists>e'. process [5, 0] R = Inl e'"
    by (rule p[OF l conjI[OF e n]])
  have m': "''not a read'' \<in> fst ` set R" by (simp only: k) (rule m)
  show ?thesis
    by (rule exI[of _ R]) (intro conjI, rule R, rule m', rule f)
qed

section \<open>Where an exception comes from\<close>

lemma py_int_error: "py_int s = Inl e \<Longrightarrow> e = ValueError"
  by (auto simp: py_int_def split: list.splits if_splits option.splits)

lemma py_getitem_error: "py_getitem xs i = Inl e \<Longrightarrow> e = IndexError"
  by (auto simp: py_getitem_def split: if_splits)

lemma split_comma_nonempty: "split_comma s \<noteq> []"
  by (induction s) (auto split: list.splits)

lemma parse_locus_error: "parse_locus l = Inl e \<Longrightarrow> e = ValueError"
  using split_comma_nonempty[of l]
  by (auto simp: parse_locus_def py_getitem_def dest: py_int_error split: sum.splits if_splits)

lemma parse_key_error: "parse_key k = Inl e \<Longrightarrow> e = ValueError \<or> e = IndexError"
  by (auto simp: parse_key_def Let_def dest: py_int_error py_getitem_error split: sum.splits)

lemma for_each_key_error:
  "for_each_key p i ks L R = Inl e \<Longrightarrow> i + 1 < length L \<Longrightarrow> set ks \<subseteq> fst ` set R \<Longrightarrow>
     \<exists>k\<in>set ks. parse_key k = Inl e"
proof (induction ks arbitrary: L)
  case Nil
  then show ?case by simp
next
  case (Cons k ks)
  show ?case
  proof (cases "parse_key k")
    case (Inl e0)
    with Cons.prems(1) have "e = e0" by simp
    with Inl show ?thesis by simp
  next
    case (Inr se)
    obtain s e' where se: "se = (s, e')" by (cases se)
    from Cons.prems(3) obtain m where m: "map_of R k = Some m"
      by (cases "map_of R k") (auto simp: map_of_eq_None_iff)
    show ?thesis
    proof (cases "s \<le> p \<and> p < e'")
      case True
      have len: "i + 1 < length (L[i + 1 := L ! (i + 1) + m])" using Cons.prems(2) by simp
      from Cons.prems(1) have "for_each_key p i ks (L[i + 1 := L ! (i + 1) + m]) R = Inl e"
        using True Cons.prems(2) by (simp add: Inr se m py_getitem_def dict_getitem_def)
      from Cons.IH[OF this len] Cons.prems(3) show ?thesis by auto
    next
      case False
      from Cons.prems(1) have "for_each_key p i ks L R = Inl e"
        using False by (auto simp add: Inr se)
      from Cons.IH[OF this Cons.prems(2)] Cons.prems(3) show ?thesis by auto
    qed
  qed
qed

lemma not_keys_parseD:
  assumes "\<not> keys_parse R"
  shows "\<exists>k\<in>set (map fst R). \<exists>e. parse_key k = Inl e"
proof -
  from assms obtain k where k: "k \<in> set (map fst R)"
    and n: "\<not> (case parse_key k of Inl e \<Rightarrow> False | Inr se \<Rightarrow> True)"
    by (auto simp: keys_parse_def list_all_iff)
  from n obtain e where "parse_key k = Inl e" by (cases "parse_key k") auto
  with k show ?thesis by blast
qed

lemma process_flat_error:
  assumes "distinct (map fst R)" and "process (flat pcs) R = Inl e"
  shows "\<exists>k\<in>fst ` set R. parse_key k = Inl e"
proof -
  have nk: "\<not> keys_parse R"
    using process_flat[OF assms(1), of pcs] assms(2) by auto
  from not_keys_parseD[OF this]
  obtain k0 e0 where k0: "k0 \<in> set (map fst R)" "parse_key k0 = Inl e0"
    by blast
  obtain p c rest where pcs: "pcs = (p, c) # rest"
    using assms(2) by (cases pcs) (auto simp: flat_Nil process_nil)
  have g: "py_getitem (flat pcs) 0 = Inr p" by (simp add: pcs flat_Cons py_getitem_def)
  from for_each_key_fails[OF k0] obtain e1 where
    f: "for_each_key p 0 (map fst R) (flat pcs) R = Inl e1" by blast
  have len: "flat pcs \<noteq> []" by (simp add: pcs flat_Cons)
  have "process (flat pcs) R = Inl e1"
    by (subst process_def, subst process_loop.simps) (simp add: g f len)
  with assms(2) have e1: "e1 = e" by simp
  have "\<exists>k\<in>set (map fst R). parse_key k = Inl e"
    by (rule for_each_key_error[where p=p and i=0 and L="flat pcs" and R=R])
       (use f e1 in \<open>simp_all add: pcs flat_Cons\<close>)
  then show ?thesis by simp
qed

lemma init_poscov_loop_error:
  "init_poscov_loop ls L = Inl e \<Longrightarrow> \<exists>l\<in>set ls. parse_locus l = Inl e"
proof (induction ls arbitrary: L)
  case Nil
  then show ?case by simp
next
  case (Cons l ls)
  show ?case
  proof (cases "parse_locus l")
    case (Inl e0)
    with Cons.prems show ?thesis by simp
  next
    case (Inr p)
    with Cons.prems have "init_poscov_loop ls ((L @ [p]) @ [0]) = Inl e" by simp
    from Cons.IH[OF this] show ?thesis by simp
  qed
qed

lemma length_fresh: "length (fresh ps) = 2 * length ps"
  by (simp add: fresh_def length_flat)

lemma init_poscov_cases:
  "(\<exists>e. init_poscov loci_file [] = Inl e \<and> (\<exists>l\<in>set (drop 1 (open_rt loci_file)). parse_locus l = Inl e))
   \<or> (\<exists>ps. init_poscov loci_file [] = Inr (fresh ps)
          \<and> map parse_locus (drop 1 (open_rt loci_file)) = map Inr ps)"
proof (cases "init_poscov loci_file []")
  case (Inl e)
  then show ?thesis using init_poscov_loop_error[of "drop 1 (open_rt loci_file)" "[]" e]
    by (simp add: init_poscov_def)
next
  case (Inr L)
  then show ?thesis using init_poscov_loop_Inr[of "drop 1 (open_rt loci_file)" "[]" L]
    by (auto simp: init_poscov_def)
qed

section \<open>Integers as text\<close>

lemma digit_not_special:
  "py_isdigit c \<Longrightarrow> c \<noteq> LF \<and> c \<noteq> CR \<and> c \<noteq> CHR '','' \<and> c \<noteq> CHR ''-'' \<and> c \<noteq> CHR ''+''
      \<and> c \<noteq> CHR ''_'' \<and> \<not> py_isspace c"
  by (auto simp: py_isdigit_def LF_def CR_def py_isspace_def)

lemma digit_char_digit: "d < 10 \<Longrightarrow> py_isdigit (digit_char d) \<and> digit_val (digit_char d) = d"
  by (simp add: py_isdigit_def digit_char_def digit_val_def)

lemma nat_digits_digits: "\<forall>c\<in>set (nat_digits n). py_isdigit c"
proof (induction n rule: nat_digits.induct)
  case (1 n)
  show ?case
  proof (cases "n < 10")
    case True
    then show ?thesis by (subst nat_digits.simps) (simp add: digit_char_digit)
  next
    case False
    with 1 show ?thesis by (subst nat_digits.simps) (simp add: digit_char_digit)
  qed
qed

lemma nat_digits_nonempty: "nat_digits n \<noteq> []"
  by (subst nat_digits.simps) simp

lemma py_digits_all:
  "\<forall>c\<in>set ds. py_isdigit c \<Longrightarrow> ds \<noteq> [] \<Longrightarrow>
     py_digits prev ds acc = Some (foldl (\<lambda>a c. 10 * a + digit_val c) acc ds)"
proof (induction ds arbitrary: prev acc)
  case Nil
  then show ?case by simp
next
  case (Cons c ds)
  show ?case
  proof (cases "ds = []")
    case True
    with Cons.prems show ?thesis by simp
  next
    case False
    with Cons.prems Cons.IH[of True "10 * acc + digit_val c"] show ?thesis by simp
  qed
qed

lemma foldl_nat_digits: "foldl (\<lambda>a c. 10 * a + digit_val c) 0 (nat_digits n) = n"
proof (induction n rule: nat_digits.induct)
  case (1 n)
  show ?case
  proof (cases "n < 10")
    case True
    then show ?thesis by (subst nat_digits.simps) (simp add: digit_char_digit)
  next
    case False
    with 1 show ?thesis by (subst nat_digits.simps) (simp add: digit_char_digit)
  qed
qed

lemma py_digits_nat_digits: "py_digits prev (nat_digits n) 0 = Some n"
  using py_digits_all[OF nat_digits_digits[of n] nat_digits_nonempty[of n], where prev=prev and acc=0]
  by (simp add: foldl_nat_digits)

lemma py_str_chars: "\<forall>c\<in>set (py_str i). py_isdigit c \<or> c = CHR ''-''"
  using nat_digits_digits by (simp add: py_str_def)

lemma py_str_nonempty: "py_str i \<noteq> []"
  by (simp add: py_str_def nat_digits_nonempty)

lemma py_str_no_special:
  "LF \<notin> set (py_str i) \<and> CR \<notin> set (py_str i) \<and> CHR '','' \<notin> set (py_str i)
     \<and> (\<forall>c\<in>set (py_str i). \<not> py_isspace c)"
proof -
  have m: "\<not> py_isspace (CHR ''-'')" by (simp add: py_isspace_def)
  have l: "CHR ''-'' \<noteq> LF" "CHR ''-'' \<noteq> CR" by (simp_all add: LF_def CR_def)
  show ?thesis using py_str_chars[of i] digit_not_special m l by fastforce
qed

lemma py_strip_clean:
  assumes "s \<noteq> []" and "\<forall>c\<in>set s. \<not> py_isspace c"
  shows "py_strip s = s"
proof -
  have a: "dropWhile py_isspace s = s" using assms by (cases s) auto
  have "rev s \<noteq> []" "\<forall>c\<in>set (rev s). \<not> py_isspace c" using assms by auto
  then have b: "dropWhile py_isspace (rev s) = rev s" by (cases "rev s") auto
  show ?thesis by (simp add: py_strip_def a b)
qed

lemma py_strip_padded:
  assumes "s \<noteq> []" and "\<forall>c\<in>set s. \<not> py_isspace c"
  shows "py_strip (CHR '' '' # s @ [LF]) = s"
proof -
  have sp: "py_isspace (CHR '' '')" "py_isspace LF" by (simp_all add: py_isspace_def LF_def)
  have a: "dropWhile py_isspace (s @ [LF]) = s @ [LF]" using assms by (cases s) auto
  have "rev s \<noteq> []" "\<forall>c\<in>set (rev s). \<not> py_isspace c" using assms by auto
  then have b: "dropWhile py_isspace (rev s) = rev s" by (cases "rev s") auto
  show ?thesis by (simp add: py_strip_def sp a b)
qed

lemma py_int_stripped: "py_strip s = py_str i \<Longrightarrow> py_int s = Inr i"
proof -
  assume s: "py_strip s = py_str i"
  show ?thesis
  proof (cases "i < 0")
    case True
    then show ?thesis
      by (simp add: py_int_def s py_str_def py_digits_nat_digits)
  next
    case False
    obtain c cs where cs: "nat_digits (nat i) = c # cs"
      using nat_digits_nonempty[of "nat i"] by (cases "nat_digits (nat i)") auto
    have "py_isdigit c" using nat_digits_digits[of "nat i"] by (simp add: cs)
    then have c: "c \<noteq> CHR ''-''" "c \<noteq> CHR ''+''" using digit_not_special by auto
    have "py_digits False (c # cs) 0 = Some (nat i)"
      using py_digits_nat_digits[of False "nat i"] by (simp only: cs)
    then show ?thesis using False c
      by (simp add: py_int_def s py_str_def cs del: py_digits.simps)
  qed
qed

lemma py_int_py_str: "py_int (py_str i) = Inr i"
  using py_str_no_special[of i] by (intro py_int_stripped py_strip_clean py_str_nonempty) simp

lemma py_int_padded: "py_int (CHR '' '' # py_str i @ [LF]) = Inr i"
  using py_str_no_special[of i] by (intro py_int_stripped py_strip_padded py_str_nonempty) simp

section \<open>The output file\<close>

lemma universal_newlines_id: "CR \<notin> set s \<Longrightarrow> universal_newlines s = s"
  by (induction s rule: universal_newlines.induct) auto

lemma file_lines_line:
  "LF \<notin> set l \<Longrightarrow> file_lines (l @ LF # rest) = (l @ [LF]) # file_lines rest"
  by (induction l) auto

lemma split_comma_none: "CHR '','' \<notin> set s \<Longrightarrow> split_comma s = [s]"
  by (induction s) auto

lemma split_comma_first:
  "CHR '','' \<notin> set s \<Longrightarrow> split_comma (s @ CHR '','' # rest) = s # split_comma rest"
  by (induction s) auto

lemma output_row_fields:
  "split_comma (output_row (p, c)) = [py_str p, CHR '' '' # py_str c @ [LF]]"
proof -
  have a: "CHR '','' \<notin> set (py_str p)" using py_str_no_special[of p] by simp
  have "CHR '','' \<noteq> LF" by (simp add: LF_def)
  then have b: "CHR '','' \<notin> set (CHR '' '' # py_str c @ [LF])"
    using py_str_no_special[of c] by auto
  have "output_row (p, c) = py_str p @ CHR '','' # (CHR '' '' # py_str c @ [LF])"
    by (simp add: output_row_def)
  then show ?thesis
    by (simp only: split_comma_first[OF a] split_comma_none[OF b])
qed

lemma read_back_output_row: "read_back_row (output_row (p, c)) = (Inr p, Inr c)"
  by (simp add: read_back_row_def parse_locus_def output_row_fields py_getitem_def
        py_int_py_str py_int_padded)

lemma parse_locus_output_row: "parse_locus (output_row (p, c)) = Inr p"
  by (simp add: parse_locus_def output_row_fields py_getitem_def py_int_py_str)

lemma output_row_line:
  "\<exists>l. output_row pc = l @ [LF] \<and> LF \<notin> set l \<and> CR \<notin> set l"
proof -
  have "CHR '','' \<noteq> LF" "CHR '' '' \<noteq> LF" "CHR '','' \<noteq> CR" "CHR '' '' \<noteq> CR"
    by (simp_all add: LF_def CR_def)
  then have "LF \<notin> set (py_str (fst pc) @ '', '' @ py_str (snd pc))
      \<and> CR \<notin> set (py_str (fst pc) @ '', '' @ py_str (snd pc))"
    using py_str_no_special[of "fst pc"] py_str_no_special[of "snd pc"] by auto
  then show ?thesis by (intro exI[of _ "py_str (fst pc) @ '', '' @ py_str (snd pc)"]) (simp add: output_row_def)
qed

lemma file_lines_rows: "file_lines (concat (map output_row pcs)) = map output_row pcs"
proof (induction pcs)
  case Nil
  then show ?case by simp
next
  case (Cons pc pcs)
  from output_row_line[of pc] obtain l where l: "output_row pc = l @ [LF]" "LF \<notin> set l" by blast
  have "file_lines (concat (map output_row (pc # pcs))) = file_lines (l @ LF # concat (map output_row pcs))"
    by (simp add: l)
  also have "\<dots> = (l @ [LF]) # file_lines (concat (map output_row pcs))"
    by (rule file_lines_line[OF l(2)])
  finally show ?case by (simp add: Cons.IH l)
qed

lemma rows_no_CR: "CR \<notin> set (concat (map output_row pcs))"
proof -
  have "LF \<noteq> CR" by (simp add: LF_def CR_def)
  then have "\<And>pc. CR \<notin> set (output_row pc)"
    using output_row_line by (metis Un_iff empty_iff empty_set set_ConsD set_append)
  then show ?thesis by auto
qed

lemma header_row_line: "\<exists>l. header_row = l @ [LF] \<and> LF \<notin> set l \<and> CR \<notin> set l"
  by (intro exI[of _ "''position, coverage''"]) (simp add: header_row_def LF_def CR_def)

lemma open_rt_output:
  "open_rt (header_row @ concat (map output_row pcs)) = header_row # map output_row pcs"
proof -
  from header_row_line obtain l where l: "header_row = l @ [LF]" "LF \<notin> set l" "CR \<notin> set l"
    by blast
  have "LF \<noteq> CR" by (simp add: LF_def CR_def)
  then have "CR \<notin> set (l @ LF # concat (map output_row pcs))"
    using l(3) rows_no_CR[of pcs] by auto
  from universal_newlines_id[OF this]
  have "open_rt (l @ LF # concat (map output_row pcs))
      = file_lines (l @ LF # concat (map output_row pcs))"
    by (simp only: open_rt_def)
  also have "\<dots> = (l @ [LF]) # file_lines (concat (map output_row pcs))"
    by (rule file_lines_line[OF l(2)])
  finally show ?thesis by (simp add: file_lines_rows l(1))
qed

lemma output_loop_flat:
  "output_loop (length pre) (length pre + 2 * length pcs) (pre @ flat pcs) fd
     = (None, fd @ concat (map output_row pcs))"
proof (induction pcs arbitrary: pre fd)
  case Nil
  show ?case by (subst output_loop.simps) simp
next
  case (Cons pc pcs)
  obtain p c where pc: "pc = (p, c)" by (cases pc)
  let ?L = "pre @ p # c # flat pcs"
  have g: "py_getitem ?L (length pre) = Inr p" "py_getitem ?L (Suc (length pre)) = Inr c"
    by (simp_all add: py_getitem_def nth_append)
  have "output_loop (length pre) (length pre + 2 * length (pc # pcs)) (pre @ flat (pc # pcs)) fd
      = output_loop (length pre) (length pre + 2 * length (pc # pcs)) ?L fd"
    by (simp add: pc flat_Cons)
  also have "\<dots> = output_loop (length pre + 2) (length pre + 2 * length (pc # pcs)) ?L
                      (fd @ py_str p @ '', '' @ py_str c @ [LF])"
    by (subst output_loop.simps) (simp add: g)
  also have "\<dots> = output_loop (length (pre @ [p, c])) (length (pre @ [p, c]) + 2 * length pcs)
                      ((pre @ [p, c]) @ flat pcs) (fd @ output_row (p, c))"
    by (simp add: output_row_def)
  also have "\<dots> = (None, (fd @ output_row (p, c)) @ concat (map output_row pcs))"
    by (rule Cons.IH)
  finally show ?case by (simp add: pc)
qed

lemma output_poscov_flat:
  "output_poscov (flat pcs) = (None, header_row @ concat (map output_row pcs))"
  using output_loop_flat[of "[]" pcs header_row]
  by (simp add: output_poscov_def length_flat header_row_def)

section \<open>Writing the loci and loading them again\<close>

lemma parse_locus_rows:
  "map parse_locus (map output_row pcs) = map Inr (map fst pcs)"
  by (induction pcs) (auto simp: parse_locus_output_row)

lemma read_back_rows:
  "map read_back_row (map output_row pcs) = map (\<lambda>(p, c). (Inr p, Inr c)) pcs"
  by (induction pcs) (auto simp: read_back_output_row)

text \<open>
  C6, as the program has it: writing the pairs of a loci list never fails, and loading
  the text written as a loci file gives the same positions in the same order, each
  with coverage 0 (\<open>init_poscov\<close> reads the first field only). The coverages are in
  the text: reading the first two fields of every line after the header as integers
  gives back each position with its coverage.
\<close>

theorem serialize_reparse:
  "fst (output_poscov (flat pcs)) = None
   \<and> init_poscov (snd (output_poscov (flat pcs))) [] = Inr (fresh (map fst pcs))
   \<and> map read_back_row (drop 1 (open_rt (snd (output_poscov (flat pcs)))))
       = map (\<lambda>(p, c). (Inr p, Inr c)) pcs"
proof -
  have o: "output_poscov (flat pcs) = (None, header_row @ concat (map output_row pcs))"
    by (rule output_poscov_flat)
  have r: "drop 1 (open_rt (header_row @ concat (map output_row pcs))) = map output_row pcs"
    by (simp add: open_rt_output)
  have "init_poscov_loop (map output_row pcs) [] = Inr ([] @ fresh (map fst pcs))"
    by (rule init_poscov_loop_ok) (rule parse_locus_rows)
  then have i: "init_poscov (header_row @ concat (map output_row pcs)) [] = Inr (fresh (map fst pcs))"
    unfolding init_poscov_def r by simp
  show ?thesis unfolding o fst_conv snd_conv r i read_back_rows by simp
qed

theorem serialize_reparse_counterexample:
  "init_poscov (snd (output_poscov [100, 2])) [] = Inr [100, 0] \<and> [100, 0] \<noteq> [100, 2 :: int]"
  by code_simp

text \<open>
  C4: when loading a loci file returns, the list holds one position and one zero per
  row after the header, in the order of the rows; and when the run ends without an
  exception, the output file is the header followed by one line per loci row, in the
  order of the rows, each with the position of its row and the coverage of that position.
\<close>

theorem one_row_per_locus:
  "(\<forall>loci. init_poscov loci_file [] = Inr loci \<longrightarrow>
      (\<exists>ps. map parse_locus (drop 1 (open_rt loci_file)) = map Inr ps
           \<and> loci = fresh ps
           \<and> length loci = 2 * length (drop 1 (open_rt loci_file))))
   \<and> (\<forall>out. main loci_file reads_file output_file = (None, Some out) \<longrightarrow>
      (\<exists>ps reads. map parse_locus (drop 1 (open_rt loci_file)) = map Inr ps
           \<and> init_reads reads_file [] = Inr reads
           \<and> open_rt out = header_row # map (\<lambda>p. output_row (p, coverage_sum reads p)) ps
           \<and> length (drop 1 (open_rt out)) = length (drop 1 (open_rt loci_file))))"
proof (intro conjI allI impI)
  fix loci
  assume "init_poscov loci_file [] = Inr loci"
  then have "init_poscov_loop (drop 1 (open_rt loci_file)) [] = Inr loci"
    by (simp add: init_poscov_def)
  from init_poscov_loop_Inr[OF this] obtain ps where
    ps: "map parse_locus (drop 1 (open_rt loci_file)) = map Inr ps" "loci = fresh ps" by auto
  from ps(1) have "length (drop 1 (open_rt loci_file)) = length ps"
    by (metis length_map)
  with ps show "\<exists>ps. map parse_locus (drop 1 (open_rt loci_file)) = map Inr ps
           \<and> loci = fresh ps
           \<and> length loci = 2 * length (drop 1 (open_rt loci_file))"
    by (auto simp: length_fresh)
next
  fix out
  assume m: "main loci_file reads_file output_file = (None, Some out)"
  from m obtain L where L: "init_poscov loci_file [] = Inr L"
    by (cases "init_poscov loci_file []") (auto simp: main_def)
  from m L obtain R where R: "init_reads reads_file [] = Inr R"
    by (cases "init_reads reads_file []") (auto simp: main_def)
  from m L R obtain L' R' where P: "process L R = Inr (L', R')"
    by (cases "process L R") (auto simp: main_def)
  from m L R P have O: "output_poscov L' = (None, out)"
    by (auto simp: main_def split: prod.splits)
  from L have "init_poscov_loop (drop 1 (open_rt loci_file)) [] = Inr L"
    by (simp add: init_poscov_def)
  from init_poscov_loop_Inr[OF this] obtain ps where
    ps: "map parse_locus (drop 1 (open_rt loci_file)) = map Inr ps" "L = fresh ps" by auto
  from ps(1) have len: "length (drop 1 (open_rt loci_file)) = length ps"
    by (metis length_map)
  from init_reads_built[of reads_file] R have d: "distinct (map fst R)" by auto
  from process_fresh[OF d P[unfolded ps(2)]]
  have L': "L' = flat (map (\<lambda>p. (p, coverage_sum R p)) ps)" by simp
  from O output_poscov_flat[of "map (\<lambda>p. (p, coverage_sum R p)) ps"]
  have out: "out = header_row @ concat (map output_row (map (\<lambda>p. (p, coverage_sum R p)) ps))"
    by (simp add: L')
  have "open_rt out = header_row # map output_row (map (\<lambda>p. (p, coverage_sum R p)) ps)"
    unfolding out by (rule open_rt_output)
  then have lines: "open_rt out = header_row # map (\<lambda>p. output_row (p, coverage_sum R p)) ps"
    by (simp add: comp_def)
  have "length (drop 1 (open_rt out)) = length (drop 1 (open_rt loci_file))"
    unfolding lines len by simp
  with ps(1) R lines
  show "\<exists>ps reads. map parse_locus (drop 1 (open_rt loci_file)) = map Inr ps
           \<and> init_reads reads_file [] = Inr reads
           \<and> open_rt out = header_row # map (\<lambda>p. output_row (p, coverage_sum reads p)) ps
           \<and> length (drop 1 (open_rt out)) = length (drop 1 (open_rt loci_file))"
    by blast
qed

theorem one_row_per_locus_witness:
  "init_poscov (''position'' @ [LF] @ ''100'' @ [LF] @ ''150,x'' @ [LF] @ ''100'' @ [LF]) []
       = Inr [100, 0, 150, 0, 100, 0]
   \<and> main (''position'' @ [LF] @ ''100'' @ [LF] @ ''150,x'' @ [LF] @ ''100'' @ [LF])
           (''start,length'' @ [LF] @ ''100,60'' @ [LF] @ ''100,60'' @ [LF] @ ''140,20'') None
       = (None, Some (''position, coverage'' @ [LF] @ ''100, 2'' @ [LF] @ ''150, 3'' @ [LF] @ ''100, 2'' @ [LF]))
   \<and> length [100, 0, 150, 0, 100, 0 :: int]
       = 2 * length (drop 1 (open_rt (''position'' @ [LF] @ ''100'' @ [LF] @ ''150,x'' @ [LF] @ ''100'' @ [LF])))
   \<and> length (drop 1 (open_rt (''position, coverage'' @ [LF] @ ''100, 2'' @ [LF] @ ''150, 3'' @ [LF] @ ''100, 2'' @ [LF])))
       = length (drop 1 (open_rt (''position'' @ [LF] @ ''100'' @ [LF] @ ''150,x'' @ [LF] @ ''100'' @ [LF])))"
proof -
  let ?lf = "''position'' @ [LF] @ ''100'' @ [LF] @ ''150,x'' @ [LF] @ ''100'' @ [LF]"
  let ?rf = "''start,length'' @ [LF] @ ''100,60'' @ [LF] @ ''100,60'' @ [LF] @ ''140,20''"
  let ?out = "''position, coverage'' @ [LF] @ ''100, 2'' @ [LF] @ ''150, 3'' @ [LF] @ ''100, 2'' @ [LF]"
  have i: "init_poscov ?lf [] = Inr [100, 0, 150, 0, 100, 0]"
    by code_simp
  have m: "main ?lf ?rf None = (None, Some ?out)"
    by code_simp
  note t = one_row_per_locus[of ?lf ?rf None]
  from t[THEN conjunct1, rule_format, OF i]
  have a: "length [100, 0, 150, 0, 100, 0 :: int] = 2 * length (drop 1 (open_rt ?lf))"
    by (elim exE conjE)
  from t[THEN conjunct2, rule_format, OF m]
  have b: "length (drop 1 (open_rt ?out)) = length (drop 1 (open_rt ?lf))"
    by (elim exE conjE)
  show ?thesis
    by (intro conjI) (rule i, rule m, rule a, rule b)
qed

theorem serialize_reparse_witness:
  "init_poscov (snd (output_poscov (flat [(100, 2), (- 7, 0)]))) [] = Inr [100, 0, - 7, 0]
   \<and> map read_back_row (drop 1 (open_rt (snd (output_poscov (flat [(100, 2), (- 7, 0)])))))
       = [(Inr 100, Inr 2), (Inr (- 7), Inr 0)]"
  using serialize_reparse[of "[(100, 2), (- 7, 0)]"]
  by (simp add: fresh_def flat_def)

section \<open>A failed parse ends the run\<close>

lemma separators_not_stripped:
  "py_int (''100'' @ [CHR 0x1C]) = Inl ValueError
   \<and> py_int (CHR 0x1D # ''5'') = Inl ValueError
   \<and> py_int ([CHR 0xA0] @ ''5'' @ [CHR 0x85]) = Inr 5
   \<and> process [100, 0] [(''100'' @ [CHR 0x1C] @ '',50'', 7)] = Inl ValueError
   \<and> process [100, 0] [(''100,'' @ [CHR 0x1C] @ ''-5'', 7)] = Inl ValueError
   \<and> main (''position'' @ [LF] @ [CHR 0x1D] @ ''5'' @ [LF]) (''start,length'' @ [LF] @ ''5,1'' @ [LF]) None
       = (Some ValueError, None)"
  by code_simp

lemma main_init_poscov_fails:
  "init_poscov loci_file [] = Inl e \<Longrightarrow> main loci_file reads_file output_file = (Some e, output_file)"
  by (simp add: main_def)

lemma main_process_fails:
  "init_poscov loci_file [] = Inr L \<Longrightarrow> init_reads reads_file [] = Inr R \<Longrightarrow>
   process L R = Inl e \<Longrightarrow> main loci_file reads_file output_file = (Some e, output_file)"
  by (simp add: main_def)

lemma main_aborts:
  assumes "(\<exists>l\<in>set (drop 1 (open_rt loci_file)). isl (parse_locus l))
         \<or> (drop 1 (open_rt loci_file) \<noteq> []
            \<and> (\<exists>l\<in>set (drop 1 (open_rt reads_file)). isl (parse_key (rstrip_nl l))))"
  shows "\<exists>e. main loci_file reads_file output_file = (Some e, output_file)
           \<and> (e = ValueError \<or> e = IndexError)
           \<and> ((\<exists>l\<in>set (drop 1 (open_rt loci_file)). parse_locus l = Inl e)
              \<or> (\<exists>l\<in>set (drop 1 (open_rt reads_file)). parse_key (rstrip_nl l) = Inl e))"
proof -
  let ?rows = "drop 1 (open_rt loci_file)"
  let ?recs = "drop 1 (open_rt reads_file)"
  from init_poscov_cases[of loci_file]
  show ?thesis
  proof (elim disjE exE conjE)
    fix e
    assume i: "init_poscov loci_file [] = Inl e"
      and l: "\<exists>l\<in>set ?rows. parse_locus l = Inl e"
    from l have "e = ValueError" by (auto dest: parse_locus_error)
    with main_init_poscov_fails[OF i, of reads_file output_file] l
    show ?thesis by blast
  next
    fix ps
    assume i: "init_poscov loci_file [] = Inr (fresh ps)"
      and m: "map parse_locus ?rows = map Inr ps"
    have "\<forall>l\<in>set ?rows. \<not> isl (parse_locus l)"
    proof
      fix l assume "l \<in> set ?rows"
      then have "parse_locus l \<in> set (map Inr ps)" using m by (metis image_eqI set_map)
      then show "\<not> isl (parse_locus l)" by auto
    qed
    with assms obtain l0 where ne: "?rows \<noteq> []" and l0: "l0 \<in> set ?recs"
      and bad: "isl (parse_key (rstrip_nl l0))" by blast
    from bad obtain e0 where e0: "parse_key (rstrip_nl l0) = Inl e0"
      by (cases "parse_key (rstrip_nl l0)") auto
    from ne m have "ps \<noteq> []" by (metis map_is_Nil_conv)
    then have nf: "fresh ps \<noteq> []" by (simp add: fresh_eq_Nil)
    from init_reads_built[of reads_file]
    obtain R where R: "init_reads reads_file [] = Inr R" and d: "distinct (map fst R)"
      and k: "fst ` set R = set (map rstrip_nl ?recs)" by blast
    from l0 k have "rstrip_nl l0 \<in> fst ` set R" by simp
    from process_fails[OF nf this e0] obtain e where e: "process (fresh ps) R = Inl e" by blast
    from process_flat_error[OF d, of "map (\<lambda>p. (p, 0)) ps" e] e
    obtain k1 where k1: "k1 \<in> fst ` set R" "parse_key k1 = Inl e"
      by (auto simp: fresh_def)
    from k1(1) k obtain l1 where l1: "l1 \<in> set ?recs" "k1 = rstrip_nl l1" by auto
    have kind: "e = ValueError \<or> e = IndexError" by (rule parse_key_error[OF k1(2)])
    have "\<exists>l\<in>set ?recs. parse_key (rstrip_nl l) = Inl e" using l1 k1(2) by blast
    with main_process_fails[OF i R e, of output_file] kind show ?thesis by blast
  qed
qed

lemma main_no_loci:
  assumes "drop 1 (open_rt loci_file) = []"
  shows "main loci_file reads_file output_file = (None, Some header_row)"
proof -
  have i: "init_poscov loci_file [] = Inr []"
    by (simp only: init_poscov_def assms) simp
  from init_reads_built[of reads_file]
  obtain R where R: "init_reads reads_file [] = Inr R" by blast
  have o: "output_poscov [] = (None, header_row)"
    by (simp add: output_poscov_def output_loop.simps header_row_def)
  show ?thesis by (simp add: main_def i R process_nil o)
qed

text \<open>
  C5, as the program has it: a loci row whose position does not parse ends the run
  with the exception of a failed parse (ValueError or IndexError) and leaves the
  output file as it was; so does a read key whose start or length does not parse,
  provided the loci file has at least one row after its header. A loci file with no
  row after its header makes the run end without exception and write the header
  alone, whatever the reads file holds: its keys are never parsed.
\<close>

theorem parse_failure_aborts:
  "((\<exists>l\<in>set (drop 1 (open_rt loci_file)). isl (parse_locus l))
      \<or> (drop 1 (open_rt loci_file) \<noteq> []
         \<and> (\<exists>l\<in>set (drop 1 (open_rt reads_file)). isl (parse_key (rstrip_nl l))))
    \<longrightarrow> (\<exists>e. main loci_file reads_file output_file = (Some e, output_file)
           \<and> (e = ValueError \<or> e = IndexError)
           \<and> ((\<exists>l\<in>set (drop 1 (open_rt loci_file)). parse_locus l = Inl e)
              \<or> (\<exists>l\<in>set (drop 1 (open_rt reads_file)). parse_key (rstrip_nl l) = Inl e))))
   \<and> (drop 1 (open_rt loci_file) = []
    \<longrightarrow> main loci_file reads_file output_file = (None, Some header_row))"
proof (intro conjI impI)
  assume "(\<exists>l\<in>set (drop 1 (open_rt loci_file)). isl (parse_locus l))
      \<or> (drop 1 (open_rt loci_file) \<noteq> []
         \<and> (\<exists>l\<in>set (drop 1 (open_rt reads_file)). isl (parse_key (rstrip_nl l))))"
  then show "\<exists>e. main loci_file reads_file output_file = (Some e, output_file)
           \<and> (e = ValueError \<or> e = IndexError)
           \<and> ((\<exists>l\<in>set (drop 1 (open_rt loci_file)). parse_locus l = Inl e)
              \<or> (\<exists>l\<in>set (drop 1 (open_rt reads_file)). parse_key (rstrip_nl l) = Inl e))"
    by (rule main_aborts)
next
  assume "drop 1 (open_rt loci_file) = []"
  then show "main loci_file reads_file output_file = (None, Some header_row)"
    by (rule main_no_loci)
qed

theorem parse_failure_aborts_witness:
  "main (''position'' @ [LF] @ ''100'' @ [LF])
        (''start,length'' @ [LF] @ ''100,60'' @ [LF] @ ''100'' @ [CHR 0x1C] @ '',50'' @ [LF])
        (Some ''old'') = (Some ValueError, Some ''old'')
   \<and> (\<exists>e. main (''position'' @ [LF] @ ''100'' @ [LF])
             (''start,length'' @ [LF] @ ''100,60'' @ [LF] @ ''100'' @ [CHR 0x1C] @ '',50'' @ [LF])
             (Some ''old'') = (Some e, Some ''old'')
           \<and> (e = ValueError \<or> e = IndexError)
           \<and> ((\<exists>l\<in>set (drop 1 (open_rt (''position'' @ [LF] @ ''100'' @ [LF]))). parse_locus l = Inl e)
              \<or> (\<exists>l\<in>set (drop 1 (open_rt (''start,length'' @ [LF] @ ''100,60'' @ [LF]
                                              @ ''100'' @ [CHR 0x1C] @ '',50'' @ [LF]))).
                    parse_key (rstrip_nl l) = Inl e)))
   \<and> main (''position'' @ [LF]) (''start,length'' @ [LF] @ ''100'' @ [LF]) (Some ''old'')
       = (None, Some header_row)"
proof -
  let ?lf = "''position'' @ [LF] @ ''100'' @ [LF]"
  let ?rf = "''start,length'' @ [LF] @ ''100,60'' @ [LF] @ ''100'' @ [CHR 0x1C] @ '',50'' @ [LF]"
  have h: "(\<exists>l\<in>set (drop 1 (open_rt ?lf)). isl (parse_locus l))
         \<or> (drop 1 (open_rt ?lf) \<noteq> []
            \<and> (\<exists>l\<in>set (drop 1 (open_rt ?rf)). isl (parse_key (rstrip_nl l))))"
    by code_simp
  have m: "main ?lf ?rf (Some ''old'') = (Some ValueError, Some ''old'')"
    by code_simp
  have n: "drop 1 (open_rt (''position'' @ [LF])) = []"
    by code_simp
  note t = parse_failure_aborts[of ?lf ?rf "Some ''old''"]
  note u = parse_failure_aborts[of "''position'' @ [LF]" "''start,length'' @ [LF] @ ''100'' @ [LF]" "Some ''old''"]
  show ?thesis
    by (intro conjI) (rule m, rule t[THEN conjunct1, rule_format, OF h],
        rule u[THEN conjunct2, rule_format, OF n])
qed

theorem parse_failure_counterexample:
  "isl (parse_key (rstrip_nl (''abc'' @ [LF])))
   \<and> main (''position'' @ [LF]) (''start,length'' @ [LF] @ ''abc'' @ [LF]) None
       = (None, Some (''position, coverage'' @ [LF]))"
  by code_simp

end
